theory Spec2Isabelle
  imports Main "HOL-Library.Word"
begin

unbundle bit_operations_syntax

section \<open>Bytes, errors and the library calls of websocket.py\<close>

text \<open>
  A Python \<open>bytes\<close> or \<open>bytearray\<close> object is a list of 8-bit words; \<open>len\<close> is a
  natural number. A Python \<open>str\<close> is a list of Unicode code points.
\<close>

type_synonym byte = "8 word"
type_synonym bytes = "byte list"
type_synonym pystr = "nat list"

text \<open>
  The exceptions that the modelled code can raise. \<open>WebSocketError\<close> is the class of the
  module and carries its message; the others come from the library calls the code makes.
\<close>

datatype error =
    WebSocketError pystr
  | OverflowError
  | ValueError
  | UnicodeDecodeError
  | SocketTimeout
  | SocketError

text \<open>A string literal of the source, as code points.\<close>

definition lit :: "string \<Rightarrow> pystr" where
  "lit s = map of_char s"

text \<open>A bytes literal \<open>b'...'\<close> of ASCII characters.\<close>

definition ascii :: "string \<Rightarrow> bytes" where
  "ascii s = map of_char s"

text \<open>The slice \<open>b[i:j]\<close> for \<open>0 \<le> i\<close>, \<open>0 \<le> j\<close>: out-of-range bounds are clipped.\<close>

definition slice :: "'a list \<Rightarrow> nat \<Rightarrow> nat \<Rightarrow> 'a list" where
  "slice b i j = take (j - i) (drop i b)"

text \<open>\<open>int.from_bytes(b, 'big')\<close>.\<close>

definition from_bytes :: "bytes \<Rightarrow> nat" where
  "from_bytes b = foldl (\<lambda>acc x. acc * 256 + unat x) 0 b"

text \<open>
  \<open>n.to_bytes(k, 'big')\<close> for \<open>n \<ge> 0\<close>: the \<open>k\<close> big-endian digits of \<open>n\<close>, and
  OverflowError when \<open>n\<close> does not fit.
\<close>

fun be_digits :: "nat \<Rightarrow> nat \<Rightarrow> bytes" where
  "be_digits 0 n = []"
| "be_digits (Suc k) n = be_digits k (n div 256) @ [of_nat (n mod 256)]"

definition to_bytes :: "nat \<Rightarrow> nat \<Rightarrow> error + bytes" where
  "to_bytes n k = (if n < 256 ^ k then Inr (be_digits k n) else Inl OverflowError)"

text \<open>
  \<open>os.urandom(4)\<close> returns four bytes; the model takes them as a value of a four-tuple
  type, so that no masking key of another length exists.
\<close>

type_synonym mask_key = "byte \<times> byte \<times> byte \<times> byte"

fun key_bytes :: "mask_key \<Rightarrow> bytes" where
  "key_bytes (a, b, c, d) = [a, b, c, d]"

text \<open>
  The masking loop, shared by both directions:
  \<^verbatim>\<open>for i, byte in enumerate(data): out.append(byte ^ mask[i % 4])\<close>
\<close>

definition xor_mask :: "bytes \<Rightarrow> bytes \<Rightarrow> bytes" where
  "xor_mask mkey data = map (\<lambda>(i, byte). byte XOR mkey ! (i mod 4)) (enumerate 0 data)"

section \<open>SimpleWebSocket._send_frame: building a frame\<close>

text \<open>
  The bytes that \<open>_send_frame(data, opcode)\<close> hands to \<open>sendall\<close>, with the masking key
  drawn from \<open>os.urandom\<close> as a parameter. \<open>bytearray.append\<close> raises ValueError for a
  value outside 0..255, and \<open>to_bytes\<close> raises OverflowError.
\<close>

definition append_byte :: "bytes \<Rightarrow> int \<Rightarrow> error + bytes" where
  "append_byte frame v = (if 0 \<le> v \<and> v \<le> 255 then Inr (frame @ [of_int v]) else Inl ValueError)"

definition length_field :: "nat \<Rightarrow> error + bytes" where
  "length_field n =
     (let mask_bit = (0x80 :: int) in
      if n \<le> 125 then append_byte [] (mask_bit OR int n)
      else if n \<le> 65535 then
        (case append_byte [] (mask_bit OR 126) of Inl e \<Rightarrow> Inl e
         | Inr f \<Rightarrow> (case to_bytes n 2 of Inl e \<Rightarrow> Inl e | Inr l \<Rightarrow> Inr (f @ l)))
      else
        (case append_byte [] (mask_bit OR 127) of Inl e \<Rightarrow> Inl e
         | Inr f \<Rightarrow> (case to_bytes n 8 of Inl e \<Rightarrow> Inl e | Inr l \<Rightarrow> Inr (f @ l))))"

definition build_frame :: "bytes \<Rightarrow> int \<Rightarrow> mask_key \<Rightarrow> error + bytes" where
  "build_frame data opcode mkey =
     (case append_byte [] (0x80 OR opcode) of Inl e \<Rightarrow> Inl e
      | Inr frame \<Rightarrow>
         (case length_field (length data) of Inl e \<Rightarrow> Inl e
          | Inr l \<Rightarrow> Inr (frame @ l @ key_bytes mkey @ xor_mask (key_bytes mkey) data)))"

section \<open>SimpleWebSocket._receive_loop: taking one frame off the buffer\<close>

text \<open>
  One pass through the body of \<open>while len(buffer) >= 2\<close> up to the point where the payload
  is extracted. \<open>NeedMoreData\<close> is each way the source leaves the inner loop with the buffer
  as it was (the loop condition failing, or one of the three \<open>break\<close>s: \<open>lengths\<close> is
  \<open>None\<close> at the two in the branches for the extended lengths); \<open>Frame\<close> carries \<open>opcode\<close>,
  \<open>payload\<close> and \<open>total_len\<close>, the number of bytes the source then drops from the buffer.
  The first byte is read for its low four bits only.
\<close>

datatype decoded = NeedMoreData | Frame byte bytes nat

definition parse_frame :: "bytes \<Rightarrow> decoded" where
  "parse_frame buffer =
     (if \<not> length buffer \<ge> 2 then NeedMoreData
      else
        let first_byte = buffer ! 0;
            opcode = first_byte AND 0x0F;
            second_byte = buffer ! 1;
            masked = (second_byte AND 0x80 \<noteq> 0);
            payload_len = unat (second_byte AND 0x7F);
            header_len = 2;
            lengths =
              (if payload_len = 126 then
                 if length buffer < 4 then None
                 else Some (from_bytes (slice buffer 2 4), 4)
               else if payload_len = 127 then
                 if length buffer < 10 then None
                 else Some (from_bytes (slice buffer 2 10), 10)
               else Some (payload_len, header_len))
        in
        case lengths of
          None \<Rightarrow> NeedMoreData
        | Some (payload_len, header_len) \<Rightarrow>
            let header_len = (if masked then header_len + 4 else header_len);
                total_len = header_len + payload_len
            in
            if length buffer < total_len then NeedMoreData
            else
              let payload =
                    (if masked then
                       xor_mask (slice buffer (header_len - 4) header_len)
                         (slice buffer header_len total_len)
                     else slice buffer header_len total_len)
              in Frame opcode payload total_len)"

text \<open>
  What \<open>parse_frame\<close> reads as the length of a payload: the second byte \<open>s\<close> of a frame
  followed by the extension bytes \<open>ext\<close> announces a payload of \<open>n\<close> bytes.
\<close>

definition announces :: "byte \<Rightarrow> bytes \<Rightarrow> nat \<Rightarrow> bool" where
  "announces s ext n =
     (let l = unat (s AND 0x7F) in
      if l = 126 then length ext = 2 \<and> n = from_bytes ext
      else if l = 127 then length ext = 8 \<and> n = from_bytes ext
      else ext = [] \<and> n = l)"

section \<open>The connection and its receive loop\<close>

text \<open>
  \<open>bytes.decode('utf-8')\<close> in its default strict mode: the well-formed byte sequences of
  the Unicode Standard (no overlong forms, no surrogates, nothing above U+10FFFF) give
  their code points, and anything else raises UnicodeDecodeError (\<open>None\<close>).
\<close>

definition in_range :: "byte \<Rightarrow> nat \<Rightarrow> nat \<Rightarrow> bool" where
  "in_range b lo hi = (lo \<le> unat b \<and> unat b \<le> hi)"

fun utf8_decode :: "bytes \<Rightarrow> pystr option" where
  "utf8_decode [] = Some []"
| "utf8_decode (b0 # bs) =
     (let n0 = unat b0 in
      if n0 < 0x80 then map_option ((#) n0) (utf8_decode bs)
      else if 0xC2 \<le> n0 \<and> n0 \<le> 0xDF then
        (case bs of
           b1 # r \<Rightarrow>
             if in_range b1 0x80 0xBF
             then map_option ((#) ((n0 - 0xC0) * 64 + (unat b1 - 0x80))) (utf8_decode r)
             else None
         | _ \<Rightarrow> None)
      else if 0xE0 \<le> n0 \<and> n0 \<le> 0xEF then
        (case bs of
           b1 # b2 # r \<Rightarrow>
             if in_range b1 (if n0 = 0xE0 then 0xA0 else 0x80) (if n0 = 0xED then 0x9F else 0xBF)
                \<and> in_range b2 0x80 0xBF
             then map_option
                    ((#) ((n0 - 0xE0) * 4096 + (unat b1 - 0x80) * 64 + (unat b2 - 0x80)))
                    (utf8_decode r)
             else None
         | _ \<Rightarrow> None)
      else if 0xF0 \<le> n0 \<and> n0 \<le> 0xF4 then
        (case bs of
           b1 # b2 # b3 # r \<Rightarrow>
             if in_range b1 (if n0 = 0xF0 then 0x90 else 0x80) (if n0 = 0xF4 then 0x8F else 0xBF)
                \<and> in_range b2 0x80 0xBF \<and> in_range b3 0x80 0xBF
             then map_option
                    ((#) ((n0 - 0xF0) * 262144 + (unat b1 - 0x80) * 4096
                          + (unat b2 - 0x80) * 64 + (unat b3 - 0x80)))
                    (utf8_decode r)
             else None
         | _ \<Rightarrow> None)
      else None)"

text \<open>The test \<open>sub in s\<close> on sequences.\<close>

fun starts_with :: "'a list \<Rightarrow> 'a list \<Rightarrow> bool" where
  "starts_with [] ys = True"
| "starts_with (x # xs) [] = False"
| "starts_with (x # xs) (y # ys) = (x = y \<and> starts_with xs ys)"

fun contains :: "'a list \<Rightarrow> 'a list \<Rightarrow> bool" where
  "contains sub [] = (sub = [])"
| "contains sub (y # ys) = (starts_with sub (y # ys) \<or> contains sub ys)"

text \<open>
  The fields of \<open>SimpleWebSocket\<close> that the modelled methods read or write, and the
  effects they have on the outside: \<open>delivered\<close> lists the calls \<open>on_message(message)\<close>,
  \<open>sent\<close> the calls \<open>sendall(...)\<close>, \<open>printed\<close> the errors that the loop prints, each in
  the order made. \<open>on_message\<close> says whether a callback is set. \<open>draws\<close> counts the calls
  of \<open>os.urandom(4)\<close>, whose results are a parameter \<open>rnd\<close> of the functions below.
  Writes to the socket succeed, the callback returns without raising, and the caller's
  thread does not call \<open>close()\<close> meanwhile.
\<close>

record conn =
  connected :: bool
  stop_event :: bool
  has_socket :: bool
  on_message :: bool
  delivered :: "pystr list"
  sent :: "bytes list"
  printed :: "error list"
  draws :: nat

text \<open>\<open>_send_frame\<close> as a step of the connection.\<close>

definition send_frame :: "(nat \<Rightarrow> mask_key) \<Rightarrow> conn \<Rightarrow> bytes \<Rightarrow> int \<Rightarrow> error + conn" where
  "send_frame rnd c data opcode =
     (case build_frame data opcode (rnd (draws c)) of
        Inl e \<Rightarrow> Inl e
      | Inr frame \<Rightarrow> Inr (c\<lparr>sent := sent c @ [frame], draws := Suc (draws c)\<rparr>))"

text \<open>
  The \<open>if opcode == ...\<close> chain at the end of the inner loop's body. \<open>Next\<close> goes on with
  the inner loop, \<open>Break\<close> is the \<open>break\<close> of the close frame, \<open>Raise\<close> an exception, which
  the \<open>except Exception\<close> of the outer loop catches.
\<close>

datatype flow = Next | Break | Raise error

definition handle_frame :: "(nat \<Rightarrow> mask_key) \<Rightarrow> conn \<Rightarrow> byte \<Rightarrow> bytes \<Rightarrow> flow \<times> conn" where
  "handle_frame rnd c opcode payload =
     (if opcode = 0x1 then
        (case utf8_decode payload of
           None \<Rightarrow> (Raise UnicodeDecodeError, c)
         | Some message \<Rightarrow>
             if on_message c then (Next, c\<lparr>delivered := delivered c @ [message]\<rparr>)
             else (Next, c))
      else if opcode = 0x8 then (Break, c\<lparr>connected := False\<rparr>)
      else if opcode = 0x9 then
        (case send_frame rnd c payload 0xA of
           Inl e \<Rightarrow> (Raise e, c)
         | Inr c' \<Rightarrow> (Next, c'))
      else (Next, c))"

text \<open>
  The inner loop \<open>while len(buffer) >= 2\<close>: it returns how it was left, the connection
  and the buffer. \<open>Next\<close> here means that no further frame is complete.
\<close>

function process_frames :: "(nat \<Rightarrow> mask_key) \<Rightarrow> conn \<Rightarrow> bytes \<Rightarrow> flow \<times> conn \<times> bytes" where
  "process_frames rnd c buffer =
     (case parse_frame buffer of
        NeedMoreData \<Rightarrow> (Next, c, buffer)
      | Frame opcode payload total_len \<Rightarrow>
          (case handle_frame rnd c opcode payload of
             (Next, c') \<Rightarrow> process_frames rnd c' (drop total_len buffer)
           | (Break, c') \<Rightarrow> (Break, c', drop total_len buffer)
           | (Raise e, c') \<Rightarrow> (Raise e, c', drop total_len buffer)))"
  by pat_completeness auto
termination
proof (relation "measure (\<lambda>(rnd, c, buffer). length buffer)")
  show "wf (measure (\<lambda>(rnd, c, buffer). length buffer))"
    by simp
next
  fix rnd :: "nat \<Rightarrow> mask_key" and c :: conn and buffer :: bytes
    and opcode payload and total_len :: nat and c' :: conn
  assume "parse_frame buffer = Frame opcode payload total_len"
  then have "0 < total_len" and "total_len \<le> length buffer"
    by (auto simp: parse_frame_def Let_def split: if_splits)
  then show "((rnd, c', drop total_len buffer), (rnd, c, buffer))
               \<in> measure (\<lambda>(rnd, c, buffer). length buffer)"
    by simp
qed

declare process_frames.simps [simp del]

text \<open>
  What one call of \<open>recv\<close> gives: some bytes (at most as many as the call asks for; none
  when the peer has closed the stream), \<open>socket.timeout\<close>, or another exception.
\<close>

datatype recv_event = Chunk bytes | Timeout | Failure

text \<open>
  The outer loop of \<open>_receive_loop\<close> over the outcomes of its \<open>recv\<close> calls, from a
  given buffer. \<open>Exited\<close> is the state once the method has returned; \<open>Waiting\<close> is the
  loop at its \<open>recv\<close> with no outcome left to take.
\<close>

datatype loop_result = Exited conn | Waiting conn bytes

fun receive_loop :: "(nat \<Rightarrow> mask_key) \<Rightarrow> recv_event list \<Rightarrow> conn \<Rightarrow> bytes \<Rightarrow> loop_result" where
  "receive_loop rnd [] c buffer =
     (if \<not> stop_event c \<and> connected c then Waiting c buffer
      else Exited (c\<lparr>connected := False\<rparr>))"
| "receive_loop rnd (ev # evs) c buffer =
     (if \<not> stop_event c \<and> connected c then
        (case ev of
           Timeout \<Rightarrow> receive_loop rnd evs c buffer
         | Failure \<Rightarrow>
             Exited ((if \<not> stop_event c then c\<lparr>printed := printed c @ [SocketError]\<rparr> else c)
                       \<lparr>connected := False\<rparr>)
         | Chunk chunk \<Rightarrow>
             if chunk = [] then Exited (c\<lparr>connected := False\<rparr>)
             else
               (case process_frames rnd c (buffer @ chunk) of
                  (Raise e, c', buffer') \<Rightarrow>
                    Exited ((if \<not> stop_event c' then c'\<lparr>printed := printed c' @ [e]\<rparr> else c')
                              \<lparr>connected := False\<rparr>)
                | (_, c', buffer') \<Rightarrow> receive_loop rnd evs c' buffer'))
      else Exited (c\<lparr>connected := False\<rparr>))"

section \<open>SimpleWebSocket.connect\<close>

definition crlf :: bytes where
  "crlf = [0x0D, 0x0A]"

text \<open>
  The loop \<open>while b'\r\n\r\n' not in response\<close>. With no outcome left the \<open>recv\<close> runs
  into the 30 seconds timeout set on the socket.
\<close>

fun read_response :: "recv_event list \<Rightarrow> bytes \<Rightarrow> (error + bytes) \<times> recv_event list" where
  "read_response [] response =
     (if contains (crlf @ crlf) response then (Inr response, []) else (Inl SocketTimeout, []))"
| "read_response (ev # evs) response =
     (if contains (crlf @ crlf) response then (Inr response, ev # evs)
      else
        (case ev of
           Timeout \<Rightarrow> (Inl SocketTimeout, evs)
         | Failure \<Rightarrow> (Inl SocketError, evs)
         | Chunk chunk \<Rightarrow>
             if chunk = [] then
               (Inl (WebSocketError (lit ''Connection closed during handshake'')), evs)
             else read_response evs (response @ chunk)))"

text \<open>
  \<open>connect\<close> from \<open>sock.connect\<close> on. \<open>tcp_error\<close> is the text \<open>{host}:{port}: {e}\<close> when
  \<open>sock.connect\<close> raises, \<open>handshake\<close> the encoded request. The result is the exception
  raised, if any, the connection as the method leaves it, and the outcomes of \<open>recv\<close>
  not yet taken. The start of the receive thread is in \<open>session\<close> below.
\<close>

definition connect ::
  "pystr option \<Rightarrow> bytes \<Rightarrow> recv_event list \<Rightarrow> conn \<Rightarrow> (error option \<times> conn) \<times> recv_event list" where
  "connect tcp_error handshake evs c =
     (case tcp_error of
        Some msg \<Rightarrow> ((Some (WebSocketError (lit ''Failed to connect to '' @ msg)), c), evs)
      | None \<Rightarrow>
          let c1 = c\<lparr>has_socket := True, sent := sent c @ [handshake]\<rparr> in
          (case read_response evs [] of
             (Inl e, evs') \<Rightarrow> ((Some e, c1), evs')
           | (Inr response, evs') \<Rightarrow>
               (case utf8_decode response of
                  None \<Rightarrow> ((Some UnicodeDecodeError, c1), evs')
                | Some response_str \<Rightarrow>
                    if \<not> contains (lit ''101'') response_str then
                      ((Some (WebSocketError
                          (lit ''WebSocket handshake failed: '' @ take 200 response_str)), c1),
                       evs')
                    else ((None, c1\<lparr>connected := True, stop_event := False\<rparr>), evs'))))"

text \<open>
  \<open>connect\<close> followed by the receive thread it starts: \<open>_receive_loop\<close> begins with
  \<open>buffer = b''\<close> and takes the outcomes of \<open>recv\<close> that \<open>connect\<close> has left.
\<close>

definition session ::
  "(nat \<Rightarrow> mask_key) \<Rightarrow> pystr option \<Rightarrow> bytes \<Rightarrow> recv_event list \<Rightarrow> conn
     \<Rightarrow> (error \<times> conn) + loop_result" where
  "session rnd tcp_error handshake evs c =
     (case connect tcp_error handshake evs c of
        ((Some e, c'), evs') \<Rightarrow> Inl (e, c')
      | ((None, c'), evs') \<Rightarrow> Inr (receive_loop rnd evs' c' []))"

text \<open>The object as \<open>__init__\<close> leaves it, given whether a callback was passed.\<close>

definition init :: "bool \<Rightarrow> conn" where
  "init callback =
     \<lparr>connected = False, stop_event = False, has_socket = False, on_message = callback,
      delivered = [], sent = [], printed = [], draws = 0\<rparr>"

section \<open>Facts about the library calls\<close>

lemma length_be_digits: "length (be_digits k n) = k"
  by (induction k arbitrary: n) simp_all

lemma from_bytes_snoc: "from_bytes (b @ [x]) = from_bytes b * 256 + unat x"
  by (simp add: from_bytes_def)

lemma from_bytes_be_digits: "from_bytes (be_digits k n) = n mod 256 ^ k"
proof (induction k arbitrary: n)
  case 0
  show ?case by (simp add: from_bytes_def)
next
  case (Suc k)
  have "unat (of_nat (n mod 256) :: byte) = n mod 256"
    by (simp add: unat_of_nat)
  then have "from_bytes (be_digits (Suc k) n) = (n div 256) mod 256 ^ k * 256 + n mod 256"
    by (simp add: from_bytes_snoc Suc.IH)
  also have "\<dots> = n mod 256 ^ Suc k"
    by (simp add: mod_mult2_eq)
  finally show ?case .
qed

lemma from_bytes_bound: "from_bytes b < 256 ^ length b"
proof (induction b rule: rev_induct)
  case Nil
  show ?case by (simp add: from_bytes_def)
next
  case (snoc x b)
  have "unat x < 256" using unsigned_less [of x] by simp
  with snoc show ?case by (simp add: from_bytes_snoc)
qed

lemma nth_xor_mask: "i < length d \<Longrightarrow> xor_mask k d ! i = d ! i XOR k ! (i mod 4)"
  by (simp add: xor_mask_def nth_enumerate_eq)

lemma xor_mask_twice: "xor_mask k (xor_mask k d) = d"
  by (rule nth_equalityI) (simp_all add: xor_mask_def nth_enumerate_eq xor.assoc)

lemma length_slice_le: "length (slice b i j) \<le> j - i"
  by (simp add: slice_def)

lemma low7_or: "((0x80 :: byte) OR w) AND 0x7F = w AND 0x7F"
proof -
  have "(0x80 :: byte) AND 0x7F = 0" by simp
  then show ?thesis by (simp add: bit.conj_disj_distrib2)
qed

lemma high_or: "((0x80 :: byte) OR w) AND 0x80 \<noteq> 0"
proof -
  have "bit (((0x80 :: byte) OR w) AND 0x80) 7"
    by (simp add: bit_simps)
  then show ?thesis by auto
qed

lemma low7_small:
  assumes n: "n < 128"
  shows "unat ((of_nat n :: byte) AND 0x7F) = n"
proof -
  have m: "(0x7F :: nat) = mask 7" by (simp add: mask_eq_exp_minus_1)
  have "unat ((of_nat n :: byte) AND 0x7F) = unat (of_nat n :: byte) AND 0x7F"
    by (simp add: unsigned_and_eq)
  also have "\<dots> = n AND 0x7F" using n by (simp add: unat_of_nat)
  also have "\<dots> = n" using n unfolding m by (simp add: take_bit_eq_mask [symmetric] take_bit_eq_mod)
  finally show ?thesis .
qed

lemma or_byte_range:
  assumes "0 \<le> v" and "v \<le> 255"
  shows "0 \<le> (0x80::int) OR v \<and> (0x80::int) OR v \<le> 255"
proof -
  from assms have "(0x80::int) OR v < 2 ^ 8"
    by (intro OR_upper) simp_all
  with assms show ?thesis by simp
qed

section \<open>Facts about the frame codec\<close>

lemma length_xor_mask: "length (xor_mask k d) = length d"
  by (simp add: xor_mask_def)

lemma slice_append_mid: "length a = i \<Longrightarrow> j = i + length b \<Longrightarrow> slice (a @ b @ c) i j = b"
  by (simp add: slice_def)

lemma slice_ext: "length ext = j - 2 \<Longrightarrow> 2 \<le> j \<Longrightarrow> slice (b0 # s # ext @ t) 2 j = ext"
  using slice_append_mid [of "[b0, s]" 2 j ext t] by simp

lemma slice_key:
  "h = 2 + length ext \<Longrightarrow> length key = 4 \<Longrightarrow>
   slice (b0 # s # ext @ key @ raw @ rest) h (h + 4) = key"
  using slice_append_mid [of "b0 # s # ext" h "h + 4" key "raw @ rest"] by simp

lemma slice_raw:
  "h = 2 + length ext + length key \<Longrightarrow>
   slice (b0 # s # ext @ key @ raw @ rest) h (h + length raw) = raw"
  using slice_append_mid [of "b0 # s # ext @ key" h "h + length raw" raw rest] by simp

lemma parse_frame_complete:
  assumes a: "announces s ext n" and r: "length raw = n"
    and k: "length key = (if s AND 0x80 \<noteq> 0 then 4 else 0)"
  shows "parse_frame (b0 # s # ext @ key @ raw @ rest) =
           Frame (b0 AND 0x0F) (if s AND 0x80 \<noteq> 0 then xor_mask key raw else raw)
             (2 + length ext + length key + n)"
proof (cases "s AND 0x80 \<noteq> 0")
  case True
  with k have k4: "length key = 4" by simp
  from a consider
      (ext2) "unat (s AND 0x7F) = 126" "length ext = 2" "n = from_bytes ext"
    | (ext8) "unat (s AND 0x7F) = 127" "length ext = 8" "n = from_bytes ext"
    | (short) "unat (s AND 0x7F) \<noteq> 126" "unat (s AND 0x7F) \<noteq> 127" "ext = []" "n = unat (s AND 0x7F)"
    by (auto simp: announces_def Let_def split: if_splits)
  then show ?thesis
  proof cases
    case ext2
    have e: "slice (b0 # s # ext @ key @ raw @ rest) 2 4 = ext"
      using slice_ext [of ext 4 b0 s "key @ raw @ rest"] ext2 by simp
    have ky: "slice (b0 # s # ext @ key @ raw @ rest) 4 8 = key"
      using slice_key [of 4 ext key b0 s raw rest] ext2 k4 by simp
    have rw: "slice (b0 # s # ext @ key @ raw @ rest) 8 (8 + from_bytes ext) = raw"
      using slice_raw [of 8 ext key b0 s raw rest] ext2 k4 r by simp
    show ?thesis
      using True ext2 k4 r by (simp add: parse_frame_def e ky rw)
  next
    case ext8
    have e: "slice (b0 # s # ext @ key @ raw @ rest) 2 10 = ext"
      using slice_ext [of ext 10 b0 s "key @ raw @ rest"] ext8 by simp
    have ky: "slice (b0 # s # ext @ key @ raw @ rest) 10 14 = key"
      using slice_key [of 10 ext key b0 s raw rest] ext8 k4 by simp
    have rw: "slice (b0 # s # ext @ key @ raw @ rest) 14 (14 + from_bytes ext) = raw"
      using slice_raw [of 14 ext key b0 s raw rest] ext8 k4 r by simp
    show ?thesis
      using True ext8 k4 r by (simp add: parse_frame_def e ky rw)
  next
    case short
    have ky: "slice (b0 # s # key @ raw @ rest) 2 6 = key"
      using slice_key [of 2 "[]" key b0 s raw rest] k4 by simp
    have rw: "slice (b0 # s # key @ raw @ rest) 6 (6 + unat (s AND 0x7F)) = raw"
      using slice_raw [of 6 "[]" key b0 s raw rest] short k4 r by simp
    show ?thesis
      using True short k4 r by (simp add: parse_frame_def ky rw)
  qed
next
  case False
  with k have k0: "key = []" by simp
  from a consider
      (ext2) "unat (s AND 0x7F) = 126" "length ext = 2" "n = from_bytes ext"
    | (ext8) "unat (s AND 0x7F) = 127" "length ext = 8" "n = from_bytes ext"
    | (short) "unat (s AND 0x7F) \<noteq> 126" "unat (s AND 0x7F) \<noteq> 127" "ext = []" "n = unat (s AND 0x7F)"
    by (auto simp: announces_def Let_def split: if_splits)
  then show ?thesis
  proof cases
    case ext2
    have e: "slice (b0 # s # ext @ raw @ rest) 2 4 = ext"
      using slice_ext [of ext 4 b0 s "raw @ rest"] ext2 by simp
    have rw: "slice (b0 # s # ext @ raw @ rest) 4 (4 + from_bytes ext) = raw"
      using slice_raw [of 4 ext "[]" b0 s raw rest] ext2 r by simp
    show ?thesis
      using False ext2 k0 r by (simp add: parse_frame_def e rw)
  next
    case ext8
    have e: "slice (b0 # s # ext @ raw @ rest) 2 10 = ext"
      using slice_ext [of ext 10 b0 s "raw @ rest"] ext8 by simp
    have rw: "slice (b0 # s # ext @ raw @ rest) 10 (10 + from_bytes ext) = raw"
      using slice_raw [of 10 ext "[]" b0 s raw rest] ext8 r by simp
    show ?thesis
      using False ext8 k0 r by (simp add: parse_frame_def e rw)
  next
    case short
    have rw: "slice (b0 # s # raw @ rest) 2 (Suc (Suc (unat (s AND 0x7F)))) = raw"
      using short r by (simp add: slice_def)
    show ?thesis
      using False short k0 r by (simp add: parse_frame_def rw)
  qed
qed






lemma length_field_shape:
  assumes "length_field n = Inr l"
  shows "\<exists>s ext. l = s # ext \<and> s AND 0x80 \<noteq> 0 \<and> announces s ext n"
proof -
  consider (short) "n \<le> 125" | (ext2) "125 < n" "n \<le> 65535" | (ext8) "65535 < n"
    by linarith
  then show ?thesis
  proof cases
    case short
    then have rg: "0 \<le> (0x80::int) OR int n \<and> (0x80::int) OR int n \<le> 255"
      by (intro or_byte_range) simp_all
    have s: "(of_int (0x80 OR int n) :: byte) = 0x80 OR of_nat n"
      by (simp add: of_int_or_eq)
    have l: "l = [0x80 OR of_nat n]"
      using assms short rg by (simp add: length_field_def append_byte_def s)
    have "unat (((0x80 :: byte) OR of_nat n) AND 0x7F) = n"
      using short by (simp add: low7_or low7_small)
    then have "announces (0x80 OR of_nat n) [] n"
      using short by (simp add: announces_def)
    with l high_or [of "of_nat n"] show ?thesis by blast
  next
    case ext2
    then have l: "l = 0xFE # be_digits 2 n"
      using assms by (simp add: length_field_def append_byte_def to_bytes_def)
    have "from_bytes (be_digits 2 n) = n"
      using ext2 by (simp add: from_bytes_be_digits)
    then have "announces 0xFE (be_digits 2 n) n"
      by (simp add: announces_def length_be_digits)
    moreover have "(0xFE :: byte) AND 0x80 \<noteq> 0" by simp
    ultimately show ?thesis using l by blast
  next
    case ext8
    then have fits: "n < 256 ^ 8"
      using assms by (simp add: length_field_def append_byte_def to_bytes_def split: if_splits)
    then have l: "l = 0xFF # be_digits 8 n"
      using assms ext8 by (simp add: length_field_def append_byte_def to_bytes_def)
    have "from_bytes (be_digits 8 n) = n"
      using fits by (simp add: from_bytes_be_digits)
    then have "announces 0xFF (be_digits 8 n) n"
      by (simp add: announces_def length_be_digits)
    moreover have "(0xFF :: byte) AND 0x80 \<noteq> 0" by simp
    ultimately show ?thesis using l by blast
  qed
qed

lemma length_field_total:
  assumes "n < 2 ^ 64"
  shows "\<exists>l. length_field n = Inr l"
proof -
  have "0 \<le> (0x80::int) OR int n \<and> (0x80::int) OR int n \<le> 255" if "n \<le> 125"
    using that by (intro or_byte_range) simp_all
  moreover have "n < 256 ^ 2" if "n \<le> 65535"
    using that by simp
  moreover have "n < 256 ^ 8"
    using assms by simp
  ultimately show ?thesis
    by (simp add: length_field_def append_byte_def to_bytes_def)
qed

lemma build_frame_shape:
  assumes "build_frame data opcode mkey = Inr fr"
  shows "\<exists>s ext. fr = of_int (0x80 OR opcode) # s # ext
                       @ key_bytes mkey @ xor_mask (key_bytes mkey) data
                 \<and> s AND 0x80 \<noteq> 0 \<and> announces s ext (length data)"
proof -
  from assms obtain l where l: "length_field (length data) = Inr l"
    and fr: "fr = of_int (0x80 OR opcode) # l @ key_bytes mkey @ xor_mask (key_bytes mkey) data"
    by (auto simp: build_frame_def append_byte_def split: if_splits sum.splits)
  from length_field_shape [OF l] fr show ?thesis by auto
qed

lemma build_frame_total:
  assumes "0 \<le> opcode" and "opcode \<le> 255" and "length data < 2 ^ 64"
  shows "\<exists>fr. build_frame data opcode mkey = Inr fr"
proof -
  from length_field_total [OF assms(3)] obtain l where "length_field (length data) = Inr l" ..
  moreover have "0 \<le> (0x80::int) OR opcode \<and> (0x80::int) OR opcode \<le> 255"
    using assms(1,2) by (rule or_byte_range)
  ultimately show ?thesis
    by (simp add: build_frame_def append_byte_def)
qed

lemma length_key_bytes: "length (key_bytes mkey) = 4"
  by (cases mkey) simp

lemma parse_built_frame:
  assumes "build_frame data opcode mkey = Inr fr"
  shows "parse_frame (fr @ rest) = Frame (of_int (0x80 OR opcode) AND 0x0F) data (length fr)"
proof -
  from build_frame_shape [OF assms] obtain s ext where
    fr: "fr = of_int (0x80 OR opcode) # s # ext @ key_bytes mkey @ xor_mask (key_bytes mkey) data"
    and m: "s AND 0x80 \<noteq> 0" and a: "announces s ext (length data)"
    by blast
  have "parse_frame (of_int (0x80 OR opcode) # s # ext @ key_bytes mkey
                      @ xor_mask (key_bytes mkey) data @ rest)
        = Frame (of_int (0x80 OR opcode) AND 0x0F)
            (if s AND 0x80 \<noteq> 0 then xor_mask (key_bytes mkey) (xor_mask (key_bytes mkey) data)
             else xor_mask (key_bytes mkey) data)
            (2 + length ext + length (key_bytes mkey) + length data)"
    using a m by (intro parse_frame_complete) (simp_all add: length_xor_mask length_key_bytes)
  then show ?thesis
    using m by (simp add: fr xor_mask_twice length_xor_mask length_key_bytes)
qed


section \<open>Facts about the loops\<close>

lemma parse_frame_consumes:
  assumes "parse_frame buffer = Frame opcode payload total_len"
  shows "2 \<le> total_len \<and> total_len \<le> length buffer"
  using assms by (auto simp: parse_frame_def Let_def split: if_splits)

lemma parse_frame_payload_bound:
  assumes "parse_frame buffer = Frame opcode payload total_len"
  shows "length payload < 2 ^ 64"
proof -
  have "from_bytes (slice buffer 2 4) < 256 ^ length (slice buffer 2 4)"
    by (rule from_bytes_bound)
  also have "\<dots> \<le> 256 ^ 2"
    using length_slice_le [of buffer 2 4] by (intro power_increasing) simp_all
  finally have l2: "from_bytes (slice buffer 2 4) < 2 ^ 64" by simp
  have "from_bytes (slice buffer 2 10) < 256 ^ length (slice buffer 2 10)"
    by (rule from_bytes_bound)
  also have "\<dots> \<le> 256 ^ 8"
    using length_slice_le [of buffer 2 10] by (intro power_increasing) simp_all
  finally have l8: "from_bytes (slice buffer 2 10) < 2 ^ 64" by simp
  have l1: "unat (buffer ! 1 AND 0x7F) < 2 ^ 64"
    using unsigned_less [of "buffer ! 1 AND 0x7F", where 'a = nat] by simp
  define n where "n = (if unat (buffer ! 1 AND 0x7F) = 126 then from_bytes (slice buffer 2 4)
                       else if unat (buffer ! 1 AND 0x7F) = 127 then from_bytes (slice buffer 2 10)
                       else unat (buffer ! 1 AND 0x7F))"
  have n: "n < 2 ^ 64"
    using l1 l2 l8 by (simp add: n_def)
  have "length payload \<le> n"
    using assms by (auto simp: parse_frame_def Let_def n_def length_xor_mask slice_def split: if_splits)
  with n show ?thesis by simp
qed

lemma process_frames_need:
  "parse_frame buffer = NeedMoreData \<Longrightarrow> process_frames rnd c buffer = (Next, c, buffer)"
  by (subst process_frames.simps) simp

lemma process_frames_frame:
  "parse_frame buffer = Frame opcode payload total_len \<Longrightarrow>
   process_frames rnd c buffer =
     (case handle_frame rnd c opcode payload of
        (Next, c') \<Rightarrow> process_frames rnd c' (drop total_len buffer)
      | (Break, c') \<Rightarrow> (Break, c', drop total_len buffer)
      | (Raise e, c') \<Rightarrow> (Raise e, c', drop total_len buffer))"
  by (subst process_frames.simps) simp

lemma process_frames_Break:
  "process_frames rnd c buffer = (Break, c', buffer') \<Longrightarrow> \<not> connected c'"
proof (induction rnd c buffer rule: process_frames.induct)
  case (1 rnd c buffer)
  show ?case
  proof (cases "parse_frame buffer")
    case NeedMoreData
    with "1.prems" show ?thesis by (simp add: process_frames_need)
  next
    case (Frame opcode payload total_len)
    obtain fl c1 where h: "handle_frame rnd c opcode payload = (fl, c1)"
      by (cases "handle_frame rnd c opcode payload")
    show ?thesis
    proof (cases fl)
      case Next
      with "1.prems" Frame h
      have "process_frames rnd c1 (drop total_len buffer) = (Break, c', buffer')"
        by (simp add: process_frames_frame)
      with "1.IH" [OF Frame h [symmetric, unfolded Next] refl] show ?thesis
        by simp
    next
      case Break
      with "1.prems" Frame h have "c' = c1"
        by (simp add: process_frames_frame)
      moreover from h Break have "\<not> connected c1"
        by (auto simp: handle_frame_def split: if_splits option.splits sum.splits)
      ultimately show ?thesis by simp
    next
      case (Raise e)
      with "1.prems" Frame h show ?thesis
        by (simp add: process_frames_frame)
    qed
  qed
qed

lemma receive_loop_Break:
  assumes "connected c" and "\<not> stop_event c" and "chunk \<noteq> []"
    and "process_frames rnd c (old @ chunk) = (Break, c', buffer')"
  shows "receive_loop rnd (Chunk chunk # evs) c old = Exited c'"
proof -
  from process_frames_Break [OF assms(4)] have nc: "\<not> connected c'" .
  then have "c'\<lparr>connected := False\<rparr> = c'"
    by simp
  with nc have "receive_loop rnd evs c' buffer' = Exited c'"
    by (cases evs) simp_all
  with assms show ?thesis by simp
qed

lemma parse_frame_first_byte:
  "b0 AND 0x0F = b0' AND 0x0F \<Longrightarrow> parse_frame (b0 # bs) = parse_frame (b0' # bs)"
  by (simp add: parse_frame_def slice_def Let_def)

lemma fin_set_same_opcode: "((b0 :: byte) OR 0x80) AND 0x0F = b0 AND 0x0F"
proof -
  have "(0x80 :: byte) AND 0x0F = 0" by simp
  then show ?thesis by (simp add: bit.conj_disj_distrib2)
qed

lemma fin_clear_same_opcode: "((b0 :: byte) AND 0x7F) AND 0x0F = b0 AND 0x0F"
proof -
  have "(0x7F :: byte) AND 0x0F = 0x0F" by simp
  then show ?thesis by (simp add: and.assoc)
qed

lemma drop_all_of: "n = length a \<Longrightarrow> drop n (a @ rest) = rest"
  by simp

section \<open>Facts about the handshake\<close>




lemma connect_rejects_without_101:
  assumes "read_response evs [] = (Inr response, evs')"
    and "utf8_decode response = Some response_str"
    and "\<not> contains (lit ''101'') response_str"
  shows "connect None handshake evs c =
           ((Some (WebSocketError (lit ''WebSocket handshake failed: '' @ take 200 response_str)),
             c\<lparr>has_socket := True, sent := sent c @ [handshake]\<rparr>), evs')"
  using assms by (simp add: connect_def)

lemma connect_rejects_plain_404:
  "connect None handshake [Chunk (ascii ''HTTP/1.1 404 Not Found'' @ crlf @ crlf)] c
   = ((Some (WebSocketError (lit ''WebSocket handshake failed: HTTP/1.1 404 Not Found'' @ [13, 10, 13, 10])),
       c\<lparr>has_socket := True, sent := sent c @ [handshake]\<rparr>), [])"
proof -
  have r: "read_response [Chunk (ascii ''HTTP/1.1 404 Not Found'' @ crlf @ crlf)] []
           = (Inr (ascii ''HTTP/1.1 404 Not Found'' @ crlf @ crlf), [])"
    by code_simp
  have u: "utf8_decode (ascii ''HTTP/1.1 404 Not Found'' @ crlf @ crlf)
           = Some (lit ''HTTP/1.1 404 Not Found'' @ [13, 10, 13, 10])"
    by code_simp
  have t: "\<not> contains (lit ''101'') (lit ''HTTP/1.1 404 Not Found'' @ [13, 10, 13, 10])"
    by code_simp
  have k: "take 200 (lit ''HTTP/1.1 404 Not Found'' @ [13, 10, 13, 10])
             = lit ''HTTP/1.1 404 Not Found'' @ [13, 10, 13, 10]"
    by (simp add: lit_def)
  have a: "lit ''WebSocket handshake failed: '' @ lit ''HTTP/1.1 404 Not Found'' @ [13, 10, 13, 10]
             = lit ''WebSocket handshake failed: HTTP/1.1 404 Not Found'' @ [13, 10, 13, 10]"
    by (simp add: lit_def)
  from connect_rejects_without_101 [OF r u t, where handshake = handshake and c = c] show ?thesis
    by (simp only: k a)
qed

lemma trailing_frame_fails_connect:
  "session (\<lambda>i. (1, 2, 3, 4)) None (ascii ''GET / HTTP/1.1'' @ crlf @ crlf)
     [Chunk (ascii ''HTTP/1.1 101 Switching Protocols'' @ crlf @ crlf @ [0x81, 0x02, 0x68, 0x69])]
     (init True)
   = Inl (UnicodeDecodeError,
          (init True)\<lparr>has_socket := True, sent := [ascii ''GET / HTTP/1.1'' @ crlf @ crlf]\<rparr>)"
  by code_simp

section \<open>The claims\<close>

text \<open>
  C1. Round trip through the frame codec: for every payload \<open>s\<close> (the UTF-8 bytes of a
  message) of a length that \<open>len\<close> can return, so in each of the four length classes
  (0 bytes, 1 to 125, 126 to 65535, more than 65535), \<open>_send_frame\<close> with the text
  opcode and any masking key builds a frame, and the receive path decodes that frame
  to the opcode 1 and the payload \<open>s\<close>, consuming exactly the length of the frame.
\<close>

theorem frame_roundtrip:
  assumes "length s < 2 ^ 64"
  shows "\<exists>frame. build_frame s 0x1 mkey = Inr frame
                \<and> parse_frame frame = Frame 0x1 s (length frame)"
proof -
  from build_frame_total [of 1 s mkey] assms
  obtain frame where fr: "build_frame s 0x1 mkey = Inr frame"
    by auto
  from parse_built_frame [OF fr, of "[]"]
  have "parse_frame frame = Frame 0x1 s (length frame)"
    by simp
  with fr show ?thesis by blast
qed

text \<open>
  The round trip at one payload of each length class.
\<close>

theorem frame_roundtrip_witness:
  "(length ([] :: bytes) < 2 ^ 64
      \<and> (\<exists>frame. build_frame [] 0x1 (1, 2, 3, 4) = Inr frame
                 \<and> parse_frame frame = Frame 0x1 [] (length frame)))
   \<and> (length [0x61, 0x62, 0x63 :: byte] < 2 ^ 64
      \<and> (\<exists>frame. build_frame [0x61, 0x62, 0x63] 0x1 (1, 2, 3, 4) = Inr frame
                 \<and> parse_frame frame = Frame 0x1 [0x61, 0x62, 0x63] (length frame)))
   \<and> (length (replicate 300 (0x61 :: byte)) < 2 ^ 64
      \<and> (\<exists>frame. build_frame (replicate 300 0x61) 0x1 (1, 2, 3, 4) = Inr frame
                 \<and> parse_frame frame = Frame 0x1 (replicate 300 0x61) (length frame)))
   \<and> (length (replicate 70000 (0x61 :: byte)) < 2 ^ 64
      \<and> (\<exists>frame. build_frame (replicate 70000 0x61) 0x1 (1, 2, 3, 4) = Inr frame
                 \<and> parse_frame frame = Frame 0x1 (replicate 70000 0x61) (length frame)))"
  using frame_roundtrip [of "[]" "(1, 2, 3, 4)"]
    frame_roundtrip [of "[0x61, 0x62, 0x63]" "(1, 2, 3, 4)"]
    frame_roundtrip [of "replicate 300 0x61" "(1, 2, 3, 4)"]
    frame_roundtrip [of "replicate 70000 0x61" "(1, 2, 3, 4)"]
  by simp



text \<open>
  C3. Close-frame handling: when the connection is open and the next frame in the buffer
  has the close opcode 8, the inner loop stops there with \<open>connected\<close> false, the bytes
  after the close frame left in the buffer and nothing else changed (no callback, nothing
  sent); from that state the outer loop exits whatever further reads would bring; and a
  read that puts the close frame at the front of the buffer makes \<open>_receive_loop\<close>
  return with the connection as it was but for \<open>connected\<close>. By \<open>receive_loop_Break\<close>
  the same holds when the close frame comes after other frames of the same read.
\<close>

theorem close_frame_stops_loop:
  assumes "connected c" and "\<not> stop_event c"
    and "parse_frame buffer = Frame 0x8 payload total_len"
  shows "process_frames rnd c buffer = (Break, c\<lparr>connected := False\<rparr>, drop total_len buffer)
         \<and> receive_loop rnd evs (c\<lparr>connected := False\<rparr>) (drop total_len buffer)
             = Exited (c\<lparr>connected := False\<rparr>)
         \<and> (\<forall>old chunk. old @ chunk = buffer \<and> chunk \<noteq> [] \<longrightarrow>
               receive_loop rnd (Chunk chunk # evs) c old = Exited (c\<lparr>connected := False\<rparr>))"
proof -
  have a: "process_frames rnd c buffer = (Break, c\<lparr>connected := False\<rparr>, drop total_len buffer)"
    using assms(3) by (simp add: process_frames_frame handle_frame_def)
  have b: "receive_loop rnd evs (c\<lparr>connected := False\<rparr>) (drop total_len buffer)
             = Exited (c\<lparr>connected := False\<rparr>)"
    by (cases evs) simp_all
  have "receive_loop rnd (Chunk chunk # evs) c old = Exited (c\<lparr>connected := False\<rparr>)"
    if "old @ chunk = buffer" and "chunk \<noteq> []" for old chunk
    using receive_loop_Break [OF assms(1,2) that(2), of rnd old] a that(1) by simp
  with a b show ?thesis by blast
qed

text \<open>
  A close frame followed by a complete text frame in one read, and a second read with
  another text frame: no message is delivered.
\<close>

theorem close_frame_stops_loop_witness:
  "connected ((init True)\<lparr>connected := True\<rparr>)
   \<and> \<not> stop_event ((init True)\<lparr>connected := True\<rparr>)
   \<and> parse_frame [0x88, 0x00, 0x81, 0x02, 0x68, 0x69] = Frame 0x8 [] 2
   \<and> process_frames (\<lambda>i. (1, 2, 3, 4)) ((init True)\<lparr>connected := True\<rparr>)
        [0x88, 0x00, 0x81, 0x02, 0x68, 0x69]
       = (Break, init True, [0x81, 0x02, 0x68, 0x69])
   \<and> receive_loop (\<lambda>i. (1, 2, 3, 4))
        [Chunk [0x88, 0x00, 0x81, 0x02, 0x68, 0x69], Chunk [0x81, 0x02, 0x68, 0x69]]
        ((init True)\<lparr>connected := True\<rparr>) []
       = Exited (init True)"
proof -
  have p: "parse_frame [0x88, 0x00, 0x81, 0x02, 0x68, 0x69] = Frame 0x8 [] 2"
    by (simp add: parse_frame_def slice_def)
  have o: "connected ((init True)\<lparr>connected := True\<rparr>)"
    and s: "\<not> stop_event ((init True)\<lparr>connected := True\<rparr>)"
    by (simp_all add: init_def)
  have i: "(init True)\<lparr>connected := True, connected := False\<rparr> = init True"
    by (simp add: init_def)
  from close_frame_stops_loop [OF o s p, of "\<lambda>i. (1, 2, 3, 4)" "[Chunk [0x81, 0x02, 0x68, 0x69]]"]
  have "process_frames (\<lambda>i. (1, 2, 3, 4)) ((init True)\<lparr>connected := True\<rparr>)
          [0x88, 0x00, 0x81, 0x02, 0x68, 0x69]
         = (Break, init True, [0x81, 0x02, 0x68, 0x69])"
    and "\<forall>old chunk. old @ chunk = [0x88, 0x00, 0x81, 0x02, 0x68, 0x69] \<and> chunk \<noteq> [] \<longrightarrow>
           receive_loop (\<lambda>i. (1, 2, 3, 4)) (Chunk chunk # [Chunk [0x81, 0x02, 0x68, 0x69]])
             ((init True)\<lparr>connected := True\<rparr>) old = Exited (init True)"
    by (simp_all add: i)
  from this(1) this(2) [rule_format, of "[]" "[0x88, 0x00, 0x81, 0x02, 0x68, 0x69]"] p o s
  show ?thesis by simp
qed

text \<open>
  C4. Ping handling: for every decoded frame with the ping opcode 9 and payload \<open>p\<close>,
  the handler writes exactly one frame to the stream, which decodes to the pong opcode
  0xA and the payload \<open>p\<close>; it changes nothing else but the count of random draws, so
  no message is passed to the callback; and the inner loop goes on with the bytes after
  the ping.
\<close>

theorem ping_answered_with_pong:
  assumes "parse_frame buffer = Frame 0x9 p total_len"
  shows "\<exists>pong. build_frame p 0xA (rnd (draws c)) = Inr pong
               \<and> parse_frame pong = Frame 0xA p (length pong)
               \<and> handle_frame rnd c 0x9 p
                   = (Next, c\<lparr>sent := sent c @ [pong], draws := Suc (draws c)\<rparr>)
               \<and> process_frames rnd c buffer
                   = process_frames rnd (c\<lparr>sent := sent c @ [pong], draws := Suc (draws c)\<rparr>)
                       (drop total_len buffer)"
proof -
  from parse_frame_payload_bound [OF assms] have "length p < 2 ^ 64" .
  with build_frame_total [of "0xA" p "rnd (draws c)"]
  obtain pong where pong: "build_frame p 0xA (rnd (draws c)) = Inr pong"
    by auto
  from parse_built_frame [OF pong, of "[]"]
  have dec: "parse_frame pong = Frame 0xA p (length pong)"
    by simp
  have h: "handle_frame rnd c 0x9 p
             = (Next, c\<lparr>sent := sent c @ [pong], draws := Suc (draws c)\<rparr>)"
    by (simp add: handle_frame_def send_frame_def pong)
  from assms h have "process_frames rnd c buffer
                   = process_frames rnd (c\<lparr>sent := sent c @ [pong], draws := Suc (draws c)\<rparr>)
                       (drop total_len buffer)"
    by (simp add: process_frames_frame)
  with pong dec h show ?thesis by blast
qed

text \<open>
  An unmasked ping with the payload \<open>abc\<close>.
\<close>

theorem ping_answered_with_pong_witness:
  "parse_frame [0x89, 0x03, 0x61, 0x62, 0x63] = Frame 0x9 [0x61, 0x62, 0x63] 5
   \<and> (\<exists>pong. build_frame [0x61, 0x62, 0x63] 0xA (1, 2, 3, 4) = Inr pong
         \<and> parse_frame pong = Frame 0xA [0x61, 0x62, 0x63] (length pong)
         \<and> handle_frame (\<lambda>i. (1, 2, 3, 4)) ((init True)\<lparr>connected := True\<rparr>) 0x9 [0x61, 0x62, 0x63]
             = (Next, (init True)\<lparr>connected := True, sent := [pong], draws := 1\<rparr>)
         \<and> process_frames (\<lambda>i. (1, 2, 3, 4)) ((init True)\<lparr>connected := True\<rparr>)
              [0x89, 0x03, 0x61, 0x62, 0x63]
             = (Next, (init True)\<lparr>connected := True, sent := [pong], draws := 1\<rparr>, []))"
proof -
  have p: "parse_frame [0x89, 0x03, 0x61, 0x62, 0x63] = Frame 0x9 [0x61, 0x62, 0x63] 5"
    by (simp add: parse_frame_def slice_def)
  have n: "parse_frame [] = NeedMoreData"
    by (simp add: parse_frame_def)
  from ping_answered_with_pong [OF p, of "\<lambda>i. (1, 2, 3, 4)" "(init True)\<lparr>connected := True\<rparr>"] p
  show ?thesis
    by (simp add: init_def process_frames_need [OF n])
qed

text \<open>
  C5. Handshake rejection. The source tests \<open>'101' not in response_str\<close> on the whole
  decoded response, not on the status line. A response whose status line says 404 and
  whose header holds the digits 101 is taken as a successful handshake: \<open>connect\<close>
  raises nothing and sets \<open>connected\<close>. (\<open>connect_rejects_plain_404\<close> is the response of
  the claim's example, which is rejected, and \<open>connect_rejects_without_101\<close> the general
  case that the code gets right.)
\<close>

theorem connect_accepts_404_mentioning_101:
  "connect None handshake
     [Chunk (ascii ''HTTP/1.1 404 Not Found'' @ crlf @ ascii ''Content-Length: 101'' @ crlf @ crlf)] c
   = ((None, c\<lparr>has_socket := True, sent := sent c @ [handshake],
                connected := True, stop_event := False\<rparr>), [])"
proof -
  define response
    where "response = ascii ''HTTP/1.1 404 Not Found'' @ crlf @ ascii ''Content-Length: 101'' @ crlf @ crlf"
  define response_str
    where "response_str = lit ''HTTP/1.1 404 Not Found'' @ [13, 10] @ lit ''Content-Length: 101''
                            @ [13, 10, 13, 10]"
  have r: "read_response [Chunk response] [] = (Inr response, [])"
    unfolding response_def by code_simp
  have u: "utf8_decode response = Some response_str"
    unfolding response_def response_str_def by code_simp
  have t: "contains (lit ''101'') response_str"
    unfolding response_str_def by code_simp
  have "connect None handshake [Chunk response] c
          = ((None, c\<lparr>has_socket := True, sent := sent c @ [handshake],
                       connected := True, stop_event := False\<rparr>), [])"
    by (simp add: connect_def r u t del: read_response.simps)
  then show ?thesis
    by (simp only: response_def)
qed




text \<open>
  C7, as amended. The loop never reads the fin bit: for every decoded frame with the text
  opcode whose payload is valid UTF-8, with a callback set, the decoded payload is passed
  to the callback at once and the loop goes on with the bytes after the frame, with the
  frame's fin bit set and with it clear alike. Nothing is kept for reassembly.
\<close>

theorem text_frame_delivered_whatever_fin:
  assumes p: "parse_frame (b0 # bs) = Frame 0x1 payload total_len"
    and u: "utf8_decode payload = Some message"
    and cb: "on_message c"
  shows "(b0 OR 0x80) AND 0x80 \<noteq> 0
         \<and> process_frames rnd c ((b0 OR 0x80) # bs)
             = process_frames rnd (c\<lparr>delivered := delivered c @ [message]\<rparr>)
                 (drop total_len (b0 # bs))
         \<and> (b0 AND 0x7F) AND 0x80 = 0
         \<and> process_frames rnd c ((b0 AND 0x7F) # bs)
             = process_frames rnd (c\<lparr>delivered := delivered c @ [message]\<rparr>)
                 (drop total_len (b0 # bs))"
proof -
  from parse_frame_consumes [OF p] obtain n where n: "total_len = Suc n"
    by (cases total_len) simp_all
  have h: "handle_frame rnd c 0x1 payload = (Next, c\<lparr>delivered := delivered c @ [message]\<rparr>)"
    using u cb by (simp add: handle_frame_def)
  have "parse_frame ((b0 OR 0x80) # bs) = Frame 0x1 payload total_len"
    using parse_frame_first_byte [OF fin_set_same_opcode, of b0 bs] p by simp
  then have s: "process_frames rnd c ((b0 OR 0x80) # bs)
             = process_frames rnd (c\<lparr>delivered := delivered c @ [message]\<rparr>)
                 (drop total_len (b0 # bs))"
    by (simp add: process_frames_frame h n)
  have "parse_frame ((b0 AND 0x7F) # bs) = Frame 0x1 payload total_len"
    using parse_frame_first_byte [OF fin_clear_same_opcode, of b0 bs] p by simp
  then have cl: "process_frames rnd c ((b0 AND 0x7F) # bs)
             = process_frames rnd (c\<lparr>delivered := delivered c @ [message]\<rparr>)
                 (drop total_len (b0 # bs))"
    by (simp add: process_frames_frame h n)
  have "bit ((b0 OR 0x80) AND 0x80) 7"
    by (simp add: bit_simps)
  then have f1: "(b0 OR 0x80) AND 0x80 \<noteq> 0" by auto
  have "(0x7F :: byte) AND 0x80 = 0" by simp
  then have f0: "(b0 AND 0x7F) AND 0x80 = 0" by (simp add: and.assoc)
  from s cl f1 f0 show ?thesis by blast
qed

text \<open>
  The text frame \<open>hi\<close> with the first byte \<open>81\<close> and with the first byte \<open>01\<close>.
\<close>

theorem text_frame_delivered_whatever_fin_witness:
  "parse_frame (0x01 # [0x02, 0x68, 0x69]) = Frame 0x1 [0x68, 0x69] 4
   \<and> utf8_decode [0x68, 0x69] = Some [104, 105]
   \<and> on_message ((init True)\<lparr>connected := True\<rparr>)
   \<and> process_frames (\<lambda>i. (1, 2, 3, 4)) ((init True)\<lparr>connected := True\<rparr>) [0x81, 0x02, 0x68, 0x69]
       = (Next, (init True)\<lparr>connected := True, delivered := [[104, 105]]\<rparr>, [])
   \<and> process_frames (\<lambda>i. (1, 2, 3, 4)) ((init True)\<lparr>connected := True\<rparr>) [0x01, 0x02, 0x68, 0x69]
       = (Next, (init True)\<lparr>connected := True, delivered := [[104, 105]]\<rparr>, [])"
proof -
  have p: "parse_frame (0x01 # [0x02, 0x68, 0x69]) = Frame 0x1 [0x68, 0x69] 4"
    by (simp add: parse_frame_def slice_def)
  have u: "utf8_decode [0x68, 0x69] = Some [104, 105]"
    by (simp add: in_range_def)
  have cb: "on_message ((init True)\<lparr>connected := True\<rparr>)"
    by (simp add: init_def)
  have n: "parse_frame [] = NeedMoreData"
    by (simp add: parse_frame_def)
  from text_frame_delivered_whatever_fin [OF p u cb, of "\<lambda>i. (1, 2, 3, 4)"] p u cb
  show ?thesis
    by (simp add: init_def process_frames_need [OF n])
qed

text \<open>
  The claim as stated fails: a text frame whose fin bit is clear is passed to the
  callback as a message.
\<close>

theorem text_frame_without_fin_counterexample:
  "(0x01 :: byte) AND 0x80 = 0
   \<and> parse_frame [0x01, 0x02, 0x68, 0x69] = Frame 0x1 [0x68, 0x69] 4
   \<and> receive_loop (\<lambda>i. (1, 2, 3, 4)) [Chunk [0x01, 0x02, 0x68, 0x69]]
        ((init True)\<lparr>connected := True\<rparr>) []
       = Waiting ((init True)\<lparr>connected := True, delivered := [[104, 105]]\<rparr>) []"
  by code_simp

text \<open>
  C8, as amended. A decoded frame whose opcode is none of 1, 8 and 9 is dropped: the
  handler leaves the connection as it is (so it stays open) and the inner loop goes on
  with the bytes after the frame.
\<close>

theorem unhandled_opcode_skipped:
  assumes p: "parse_frame buffer = Frame opcode payload total_len"
    and o: "opcode \<noteq> 0x1" "opcode \<noteq> 0x8" "opcode \<noteq> 0x9"
  shows "handle_frame rnd c opcode payload = (Next, c)
         \<and> process_frames rnd c buffer = process_frames rnd c (drop total_len buffer)"
  using p o by (simp add: process_frames_frame handle_frame_def)

text \<open>
  A frame with the reserved opcode 3, followed by a text frame.
\<close>

theorem unhandled_opcode_skipped_witness:
  "parse_frame [0x83, 0x00, 0x81, 0x02, 0x68, 0x69] = Frame 0x3 [] 2
   \<and> (0x3 :: byte) \<noteq> 0x1 \<and> (0x3 :: byte) \<noteq> 0x8 \<and> (0x3 :: byte) \<noteq> 0x9
   \<and> handle_frame (\<lambda>i. (1, 2, 3, 4)) ((init True)\<lparr>connected := True\<rparr>) 0x3 []
       = (Next, (init True)\<lparr>connected := True\<rparr>)
   \<and> process_frames (\<lambda>i. (1, 2, 3, 4)) ((init True)\<lparr>connected := True\<rparr>)
        [0x83, 0x00, 0x81, 0x02, 0x68, 0x69]
       = process_frames (\<lambda>i. (1, 2, 3, 4)) ((init True)\<lparr>connected := True\<rparr>)
           [0x81, 0x02, 0x68, 0x69]"
proof -
  have p: "parse_frame [0x83, 0x00, 0x81, 0x02, 0x68, 0x69] = Frame 0x3 [] 2"
    by (simp add: parse_frame_def slice_def)
  have o: "(0x3 :: byte) \<noteq> 0x1" "(0x3 :: byte) \<noteq> 0x8" "(0x3 :: byte) \<noteq> 0x9"
    by simp_all
  from unhandled_opcode_skipped [OF p o, of "\<lambda>i. (1, 2, 3, 4)" "(init True)\<lparr>connected := True\<rparr>"] p o
  show ?thesis by simp
qed

text \<open>
  The claim as stated fails: after a frame with the reserved opcode 3 the connection is
  still open, the text frame behind it is delivered and the loop waits for the next read.
\<close>

theorem unhandled_opcode_counterexample:
  "parse_frame [0x83, 0x00, 0x81, 0x02, 0x68, 0x69] = Frame 0x3 [] 2
   \<and> receive_loop (\<lambda>i. (1, 2, 3, 4)) [Chunk [0x83, 0x00, 0x81, 0x02, 0x68, 0x69]]
        ((init True)\<lparr>connected := True\<rparr>) []
       = Waiting ((init True)\<lparr>connected := True, delivered := [[104, 105]]\<rparr>) []"
  by code_simp

text \<open>
  C10. The receive path reads the mask bit of every frame. For a frame whose second byte
  \<open>s\<close> has the bit set, the four bytes after the length are taken as the key and the
  payload handed to the handler is the wire payload with byte \<open>i\<close> XORed with byte
  \<open>i mod 4\<close> of the key; for a frame with the bit clear the payload is handed on as it
  is. This holds for each way to write the length, for every first byte and whatever
  follows the frame in the buffer.
\<close>

theorem mask_bit_decides_unmasking:
  assumes a: "announces s ext (length raw)"
  shows "(s AND 0x80 \<noteq> 0 \<longrightarrow>
           (\<exists>payload.
              parse_frame (b0 # s # ext @ key_bytes mkey @ raw @ rest)
                = Frame (b0 AND 0x0F) payload (2 + length ext + 4 + length raw)
              \<and> length payload = length raw
              \<and> (\<forall>i<length raw. payload ! i = raw ! i XOR key_bytes mkey ! (i mod 4))
              \<and> process_frames rnd c (b0 # s # ext @ key_bytes mkey @ raw @ rest)
                  = (case handle_frame rnd c (b0 AND 0x0F) payload of
                       (Next, c') \<Rightarrow> process_frames rnd c' rest
                     | (Break, c') \<Rightarrow> (Break, c', rest)
                     | (Raise e, c') \<Rightarrow> (Raise e, c', rest))))
         \<and> (s AND 0x80 = 0 \<longrightarrow>
              parse_frame (b0 # s # ext @ raw @ rest)
                = Frame (b0 AND 0x0F) raw (2 + length ext + length raw)
              \<and> process_frames rnd c (b0 # s # ext @ raw @ rest)
                  = (case handle_frame rnd c (b0 AND 0x0F) raw of
                       (Next, c') \<Rightarrow> process_frames rnd c' rest
                     | (Break, c') \<Rightarrow> (Break, c', rest)
                     | (Raise e, c') \<Rightarrow> (Raise e, c', rest)))"
proof (intro conjI impI)
  assume m: "s AND 0x80 \<noteq> 0"
  have p: "parse_frame (b0 # s # ext @ key_bytes mkey @ raw @ rest)
             = Frame (b0 AND 0x0F) (xor_mask (key_bytes mkey) raw) (2 + length ext + 4 + length raw)"
    using parse_frame_complete [OF a refl, of "key_bytes mkey" b0 rest] m
    by (simp add: length_key_bytes)
  have d: "drop (2 + length ext + 4 + length raw) (b0 # s # ext @ key_bytes mkey @ raw @ rest) = rest"
    using drop_all_of [of "2 + length ext + 4 + length raw" "b0 # s # ext @ key_bytes mkey @ raw" rest]
    by (simp add: length_key_bytes)
  have "process_frames rnd c (b0 # s # ext @ key_bytes mkey @ raw @ rest)
          = (case handle_frame rnd c (b0 AND 0x0F) (xor_mask (key_bytes mkey) raw) of
               (Next, c') \<Rightarrow> process_frames rnd c' rest
             | (Break, c') \<Rightarrow> (Break, c', rest)
             | (Raise e, c') \<Rightarrow> (Raise e, c', rest))"
    unfolding process_frames_frame [OF p] d ..
  with p show "\<exists>payload.
              parse_frame (b0 # s # ext @ key_bytes mkey @ raw @ rest)
                = Frame (b0 AND 0x0F) payload (2 + length ext + 4 + length raw)
              \<and> length payload = length raw
              \<and> (\<forall>i<length raw. payload ! i = raw ! i XOR key_bytes mkey ! (i mod 4))
              \<and> process_frames rnd c (b0 # s # ext @ key_bytes mkey @ raw @ rest)
                  = (case handle_frame rnd c (b0 AND 0x0F) payload of
                       (Next, c') \<Rightarrow> process_frames rnd c' rest
                     | (Break, c') \<Rightarrow> (Break, c', rest)
                     | (Raise e, c') \<Rightarrow> (Raise e, c', rest))"
    by (intro exI [of _ "xor_mask (key_bytes mkey) raw"]) (simp add: length_xor_mask nth_xor_mask)
next
  assume m: "s AND 0x80 = 0"
  show p: "parse_frame (b0 # s # ext @ raw @ rest)
             = Frame (b0 AND 0x0F) raw (2 + length ext + length raw)"
    using parse_frame_complete [OF a refl, of "[]" b0 rest] m by simp
  have d: "drop (2 + length ext + length raw) (b0 # s # ext @ raw @ rest) = rest"
    using drop_all_of [of "2 + length ext + length raw" "b0 # s # ext @ raw" rest]
    by simp
  show "process_frames rnd c (b0 # s # ext @ raw @ rest)
          = (case handle_frame rnd c (b0 AND 0x0F) raw of
               (Next, c') \<Rightarrow> process_frames rnd c' rest
             | (Break, c') \<Rightarrow> (Break, c', rest)
             | (Raise e, c') \<Rightarrow> (Raise e, c', rest))"
    unfolding process_frames_frame [OF p] d ..
qed

text \<open>
  The text frame \<open>abc\<close>, masked with the key 1, 2, 3, 4 and unmasked.
\<close>

theorem mask_bit_decides_unmasking_witness:
  "announces 0x83 [] (length [0x60, 0x60, 0x60 :: byte])
   \<and> (0x83 :: byte) AND 0x80 \<noteq> 0
   \<and> parse_frame [0x81, 0x83, 1, 2, 3, 4, 0x60, 0x60, 0x60] = Frame 0x1 [0x61, 0x62, 0x63] 9
   \<and> announces 0x03 [] (length [0x61, 0x62, 0x63 :: byte])
   \<and> (0x03 :: byte) AND 0x80 = 0
   \<and> parse_frame [0x81, 0x03, 0x61, 0x62, 0x63] = Frame 0x1 [0x61, 0x62, 0x63] 5"
proof -
  have a: "announces 0x83 [] (length [0x60, 0x60, 0x60 :: byte])"
    by (simp add: announces_def)
  have m: "(0x83 :: byte) AND 0x80 \<noteq> 0"
    by simp
  from mask_bit_decides_unmasking [OF a, where ?b0.0 = "0x81" and mkey = "(1, 2, 3, 4)" and rest = "[]"
      and rnd = "\<lambda>i. (1, 2, 3, 4)" and c = "init True"] m
  obtain payload where p: "parse_frame [0x81, 0x83, 1, 2, 3, 4, 0x60, 0x60, 0x60] = Frame 0x1 payload 9"
    and l: "length payload = 3"
    and x: "\<forall>i<3. payload ! i = [0x60, 0x60, 0x60] ! i XOR [1, 2, 3, 4 :: byte] ! (i mod 4)"
    by auto
  from x have "payload ! 0 = 0x61" "payload ! 1 = 0x62" "payload ! 2 = 0x63"
    by simp_all
  with l have "payload = [0x61, 0x62, 0x63]"
    by (intro nth_equalityI) (auto simp: less_Suc_eq numeral_3_eq_3 numeral_2_eq_2)
  with p have masked: "parse_frame [0x81, 0x83, 1, 2, 3, 4, 0x60, 0x60, 0x60] = Frame 0x1 [0x61, 0x62, 0x63] 9"
    by simp
  have b: "announces 0x03 [] (length [0x61, 0x62, 0x63 :: byte])"
    by (simp add: announces_def)
  have u: "(0x03 :: byte) AND 0x80 = 0"
    by simp
  from mask_bit_decides_unmasking [OF b, where ?b0.0 = "0x81" and mkey = "(1, 2, 3, 4)" and rest = "[]"
      and rnd = "\<lambda>i. (1, 2, 3, 4)" and c = "init True"] u
  have "parse_frame [0x81, 0x03, 0x61, 0x62, 0x63] = Frame 0x1 [0x61, 0x62, 0x63] 5"
    by simp
  with a m masked b u show ?thesis by blast
qed

end
